theory Spec2Isabelle
  imports Main
begin

section \<open>Intrusive singly linked list\<close>

text \<open>
  The model of \<^verbatim>\<open>include/freertos_cpp_util/util/Intrusive_slist.hpp\<close>. A pointer to a
  node is the address of the node or null (\<open>None\<close>). The nodes live outside the list,
  so the memory that holds them is an explicit store from addresses to node objects, and
  every operation that writes through a node pointer returns the updated store.
\<close>

type_synonym addr = nat
type_synonym ptr = "addr option"

text \<open>
  Class \<^verbatim>\<open>Intrusive_slist_node\<close> has the one field \<^verbatim>\<open>m_next\<close>. The record is
  extensible: a class derived from the node is the record with more fields, and the store
  is polymorphic in them.
\<close>

record Intrusive_slist_node =
  m_next :: ptr

type_synonym 'a node_store = "addr \<Rightarrow> 'a Intrusive_slist_node_scheme"

text \<open>Class \<^verbatim>\<open>Intrusive_slist\<close> has the one field \<^verbatim>\<open>m_head\<close>.\<close>

record Intrusive_slist =
  m_head :: ptr

text \<open>The default constructors: \<^verbatim>\<open>m_next = nullptr\<close> and \<^verbatim>\<open>m_head = nullptr\<close>.\<close>

definition Intrusive_slist_node_ctor :: Intrusive_slist_node where
  "Intrusive_slist_node_ctor = \<lparr>m_next = None\<rparr>"

definition Intrusive_slist_ctor :: Intrusive_slist where
  "Intrusive_slist_ctor = \<lparr>m_head = None\<rparr>"

text \<open>
  The move constructor \<^verbatim>\<open>Intrusive_slist(Intrusive_slist&& rhs)\<close>: the new list takes
  \<^verbatim>\<open>rhs.m_head\<close>, then \<^verbatim>\<open>rhs.m_head = nullptr\<close>. The result is the store, the
  new list and the source list after the move.
\<close>

definition Intrusive_slist_move ::
  "'a node_store \<times> Intrusive_slist \<Rightarrow> 'a node_store \<times> Intrusive_slist \<times> Intrusive_slist" where
  "Intrusive_slist_move st =
     (case st of (s, rhs) \<Rightarrow> (s, \<lparr>m_head = m_head rhs\<rparr>, rhs\<lparr>m_head := None\<rparr>))"

text \<open>
  \<^verbatim>\<open>front<T>()\<close> returns \<^verbatim>\<open>static_cast<T*>(m_head)\<close>. A static cast from the base
  to a derived class maps the null pointer to the null pointer and any other pointer to
  the address of the enclosing object of type \<open>T\<close>; the adjustment \<open>adj\<close> stands for
  the derived type.
\<close>

definition static_cast :: "(addr \<Rightarrow> 't) \<Rightarrow> ptr \<Rightarrow> 't option" where
  "static_cast adj p = (case p of None \<Rightarrow> None | Some a \<Rightarrow> Some (adj a))"

definition front :: "(addr \<Rightarrow> 't) \<Rightarrow> Intrusive_slist \<Rightarrow> 't option" where
  "front adj l = static_cast adj (m_head l)"

definition empty :: "Intrusive_slist \<Rightarrow> bool" where
  "empty l = (m_head l = None)"

text \<open>
  \<^verbatim>\<open>push_front(node)\<close> dereferences \<open>node\<close> in both branches, so \<open>node\<close> is an
  address, not a nullable pointer.
\<close>

definition push_front ::
  "addr \<Rightarrow> 'a node_store \<times> Intrusive_slist \<Rightarrow> 'a node_store \<times> Intrusive_slist" where
  "push_front node st =
     (case st of (s, l) \<Rightarrow>
        (let s' = (if m_head l \<noteq> None
                   then s(node := (s node)\<lparr>m_next := m_head l\<rparr>)
                   else s(node := (s node)\<lparr>m_next := None\<rparr>))
         in (s', l\<lparr>m_head := Some node\<rparr>)))"

definition pop_front ::
  "'a node_store \<times> Intrusive_slist \<Rightarrow> 'a node_store \<times> Intrusive_slist" where
  "pop_front st =
     (case st of (s, l) \<Rightarrow>
        (case m_head l of
           Some h \<Rightarrow> (s, l\<lparr>m_head := m_next (s h)\<rparr>)
         | None \<Rightarrow> (s, l)))"

text \<open>
  The loop of \<^verbatim>\<open>erase(node)\<close>, with its two local variables \<open>prev\<close> and \<open>cur\<close>. On
  a chain that never reaches null the loop does not return, which is the value \<open>None\<close>.
  The result is the updated store and the value returned. \<^verbatim>\<open>m_head\<close> is never assigned.
\<close>

partial_function (option) erase_loop ::
  "ptr \<Rightarrow> 'a node_store \<Rightarrow> ptr \<Rightarrow> ptr \<Rightarrow> ('a node_store \<times> bool) option" where
  "erase_loop node s prev cur =
     (case cur of
        None \<Rightarrow> Some (s, False)
      | Some c \<Rightarrow>
          if Some c = node
          then (let s1 = (case prev of
                            Some p \<Rightarrow> s(p := (s p)\<lparr>m_next := m_next (s c)\<rparr>)
                          | None \<Rightarrow> s)
                in Some (s1(c := (s1 c)\<lparr>m_next := None\<rparr>), True))
          else erase_loop node s (Some c) (m_next (s c)))"

declare erase_loop.simps [code]

definition erase ::
  "ptr \<Rightarrow> 'a node_store \<times> Intrusive_slist \<Rightarrow> (('a node_store \<times> Intrusive_slist) \<times> bool) option" where
  "erase node st =
     (case st of (s, l) \<Rightarrow>
        (case erase_loop node s None (m_head l) of
           None \<Rightarrow> None
         | Some (s', found) \<Rightarrow> Some ((s', l), found)))"

subsection \<open>The nodes of a list\<close>

text \<open>
  \<open>chain s p xs\<close>: following \<^verbatim>\<open>m_next\<close> from \<open>p\<close> visits exactly the nodes \<open>xs\<close>, in
  this order, and then reaches null. \<open>linked s p n\<close>: node \<open>n\<close> is reached from \<open>p\<close>,
  whether or not the chain ends.
\<close>

primrec chain :: "'a node_store \<Rightarrow> ptr \<Rightarrow> addr list \<Rightarrow> bool" where
  "chain s p [] = (p = None)"
| "chain s p (a # as) = (p = Some a \<and> chain s (m_next (s a)) as)"

inductive linked :: "'a node_store \<Rightarrow> ptr \<Rightarrow> addr \<Rightarrow> bool" for s :: "'a node_store" where
  linked_here: "linked s (Some a) a"
| linked_next: "linked s (m_next (s a)) n \<Longrightarrow> linked s (Some a) n"

code_pred linked .

subsection \<open>Sequences of calls\<close>

text \<open>
  A sequence of calls on one list. \<open>run\<close> is \<open>None\<close> when a call does not return.
  \<open>fresh_pushes\<close> holds when every \<^verbatim>\<open>push_front\<close> of the sequence is given a node that
  is not linked in the list at the time of the call. \<open>pushed\<close> lists the nodes given to
  \<^verbatim>\<open>push_front\<close>.
\<close>

datatype op = Push_front addr | Pop_front | Erase ptr

fun apply_op ::
  "op \<Rightarrow> 'a node_store \<times> Intrusive_slist \<Rightarrow> ('a node_store \<times> Intrusive_slist) option" where
  "apply_op (Push_front n) st = Some (push_front n st)"
| "apply_op Pop_front st = Some (pop_front st)"
| "apply_op (Erase n) st = (case erase n st of None \<Rightarrow> None | Some (st', found) \<Rightarrow> Some st')"

fun run ::
  "op list \<Rightarrow> 'a node_store \<times> Intrusive_slist \<Rightarrow> ('a node_store \<times> Intrusive_slist) option" where
  "run [] st = Some st"
| "run (x # xs) st = (case apply_op x st of None \<Rightarrow> None | Some st' \<Rightarrow> run xs st')"

fun push_is_fresh :: "op \<Rightarrow> 'a node_store \<times> Intrusive_slist \<Rightarrow> bool" where
  "push_is_fresh (Push_front n) st = (\<not> linked (fst st) (m_head (snd st)) n)"
| "push_is_fresh Pop_front st = True"
| "push_is_fresh (Erase n) st = True"

fun fresh_pushes :: "op list \<Rightarrow> 'a node_store \<times> Intrusive_slist \<Rightarrow> bool" where
  "fresh_pushes [] st = True"
| "fresh_pushes (x # xs) st =
     (push_is_fresh x st \<and>
      (case apply_op x st of None \<Rightarrow> True | Some st' \<Rightarrow> fresh_pushes xs st'))"

fun pushed :: "op list \<Rightarrow> addr list" where
  "pushed [] = []"
| "pushed (Push_front n # xs) = n # pushed xs"
| "pushed (Pop_front # xs) = pushed xs"
| "pushed (Erase n # xs) = pushed xs"


text \<open>A store in which every node is as its default constructor left it.\<close>

definition default_nodes :: "unit node_store" where
  "default_nodes = (\<lambda>a. Intrusive_slist_node_ctor)"

section \<open>Logger\<close>

text \<open>
  The model of \<^verbatim>\<open>include/freertos_cpp_util/logging/Logger.hpp\<close>: the three data members,
  the constructor and \<^verbatim>\<open>set_sink\<close>. The constant \<^verbatim>\<open>NUM_RECORDS\<close> is declared in a
  header that is not among the sources, and is a parameter of the constructor.
\<close>

text \<open>
  Modelled from the spec: the class template \<^verbatim>\<open>Object_pool<T, N>\<close> is not among the
  sources. The spec has it manage N preallocated objects, all of them free at
  construction, with a capacity that is fixed at construction and never changes.
\<close>

record Object_pool =
  pool_capacity :: nat
  pool_free :: "nat list"

definition Object_pool_ctor :: "nat \<Rightarrow> Object_pool" where
  "Object_pool_ctor N = \<lparr>pool_capacity = N, pool_free = [0..<N]\<rparr>"

text \<open>
  Modelled from the spec: the class template \<^verbatim>\<open>Queue_static_pod<T, N>\<close> is not among
  the sources. The spec has it a bounded first-in first-out queue of capacity N, empty at
  construction.
\<close>

record Queue_static_pod =
  queue_capacity :: nat
  queue_items :: "addr list"

definition Queue_static_pod_ctor :: "nat \<Rightarrow> Queue_static_pod" where
  "Queue_static_pod_ctor N = \<lparr>queue_capacity = N, queue_items = []\<rparr>"

text \<open>
  Class \<^verbatim>\<open>Logger\<close>: \<^verbatim>\<open>Object_pool<String_type, NUM_RECORDS> m_log_pool\<close>,
  \<^verbatim>\<open>Queue_static_pod<String_type*, NUM_RECORDS> m_log_buffer\<close> and
  \<^verbatim>\<open>Log_sink_base* m_sink\<close>. The constructor sets \<^verbatim>\<open>m_sink = nullptr\<close>;
  \<^verbatim>\<open>set_sink(sink)\<close> assigns \<^verbatim>\<open>m_sink = sink\<close>.
\<close>

record Logger =
  m_log_pool :: Object_pool
  m_log_buffer :: Queue_static_pod
  m_sink :: ptr

definition Logger_ctor :: "nat \<Rightarrow> Logger" where
  "Logger_ctor NUM_RECORDS =
     \<lparr>m_log_pool = Object_pool_ctor NUM_RECORDS,
      m_log_buffer = Queue_static_pod_ctor NUM_RECORDS,
      m_sink = None\<rparr>"

definition set_sink :: "ptr \<Rightarrow> Logger \<Rightarrow> Logger" where
  "set_sink sink lg = lg\<lparr>m_sink := sink\<rparr>"

section \<open>Properties of the list\<close>

subsection \<open>Chains of nodes\<close>

lemma chain_unique: "chain s p xs \<Longrightarrow> chain s p ys \<Longrightarrow> xs = ys"
proof (induction xs arbitrary: p ys)
  case Nil
  then show ?case by (cases ys) auto
next
  case (Cons a xs)
  then show ?case by (cases ys) auto
qed

lemma chain_store_upd: "a \<notin> set xs \<Longrightarrow> chain (s(a := v)) p xs = chain s p xs"
  by (induction xs arbitrary: p) auto

lemma chain_suffix: "chain s p (us @ a # vs) \<Longrightarrow> chain s (m_next (s a)) vs"
  by (induction us arbitrary: p) auto

lemma chain_successor_fresh:
  assumes "chain s (m_next (s a)) xs"
  shows "a \<notin> set xs"
proof
  assume "a \<in> set xs"
  then obtain us vs where split: "xs = us @ a # vs"
    by (auto simp: in_set_conv_decomp)
  with assms have "chain s (m_next (s a)) vs"
    using chain_suffix by blast
  with assms have "xs = vs"
    by (rule chain_unique)
  with split show False by simp
qed

lemma chain_distinct: "chain s p xs \<Longrightarrow> distinct xs"
proof (induction xs arbitrary: p)
  case Nil
  show ?case by simp
next
  case (Cons a xs)
  then have tl: "chain s (m_next (s a)) xs" by simp
  from tl have "a \<notin> set xs" by (rule chain_successor_fresh)
  moreover from tl have "distinct xs" by (rule Cons.IH)
  ultimately show ?case by simp
qed

lemma chain_imp_linked: "chain s p xs \<Longrightarrow> n \<in> set xs \<Longrightarrow> linked s p n"
proof (induction xs arbitrary: p)
  case Nil
  then show ?case by simp
next
  case (Cons a xs)
  show ?case
  proof (cases "n = a")
    case True
    with Cons.prems show ?thesis by (auto intro: linked_here)
  next
    case False
    with Cons.prems have "linked s (m_next (s a)) n"
      by (auto intro: Cons.IH)
    with Cons.prems show ?thesis by (auto intro: linked_next)
  qed
qed

lemma linked_imp_chain: "linked s p n \<Longrightarrow> chain s p xs \<Longrightarrow> n \<in> set xs"
proof (induction arbitrary: xs rule: linked.induct)
  case (linked_here a)
  then show ?case by (cases xs) auto
next
  case (linked_next a n)
  then show ?case by (cases xs) auto
qed

lemma linked_chain_iff: "chain s p xs \<Longrightarrow> linked s p n = (n \<in> set xs)"
  using chain_imp_linked linked_imp_chain by blast

lemma chain_unlink_aux:
  assumes s': "s' = s(p := (s p)\<lparr>m_next := m_next (s n)\<rparr>, n := (s n)\<lparr>m_next := None\<rparr>)"
  shows "chain s q (ys @ p # n # zs) \<Longrightarrow> chain s' q (ys @ p # zs)"
proof (induction ys arbitrary: q)
  case Nil
  then have d: "distinct (p # n # zs)" using chain_distinct by fastforce
  from Nil have q: "q = Some p" and c: "chain s (m_next (s n)) zs" by simp_all
  from d have f: "p \<notin> set zs" "n \<notin> set zs" "p \<noteq> n" by simp_all
  have tl: "chain s' (m_next (s n)) zs"
    unfolding s' using c f by (simp add: chain_store_upd)
  have "m_next (s' p) = m_next (s n)"
    unfolding s' using f by simp
  with tl q show ?case by simp
next
  case (Cons y ys)
  then have d: "distinct (y # ys @ p # n # zs)" using chain_distinct by fastforce
  then have "s' y = s y" unfolding s' by simp
  moreover from Cons.prems have "q = Some y" "chain s (m_next (s y)) (ys @ p # n # zs)"
    by simp_all
  ultimately show ?case using Cons.IH by simp
qed

lemma chain_unlink:
  "chain s q (ys @ p # n # zs) \<Longrightarrow>
   chain (s(p := (s p)\<lparr>m_next := m_next (s n)\<rparr>, n := (s n)\<lparr>m_next := None\<rparr>)) q (ys @ p # zs)"
  by (rule chain_unlink_aux [OF refl])

subsection \<open>The scan of erase\<close>

lemma erase_loop_absent:
  "chain s cur xs \<Longrightarrow> node \<notin> Some ` set xs \<Longrightarrow> erase_loop node s prev cur = Some (s, False)"
proof (induction xs arbitrary: prev cur)
  case Nil
  then show ?case by (subst erase_loop.simps) simp
next
  case (Cons a xs)
  from Cons.prems have "erase_loop node s (Some a) (m_next (s a)) = Some (s, False)"
    by (intro Cons.IH) auto
  with Cons.prems show ?case by (subst erase_loop.simps) auto
qed

lemma erase_loop_here:
  "erase_loop (Some n) s prev (Some n) =
     Some ((case prev of Some p \<Rightarrow> s(p := (s p)\<lparr>m_next := m_next (s n)\<rparr>) | None \<Rightarrow> s)
             (n := ((case prev of Some p \<Rightarrow> s(p := (s p)\<lparr>m_next := m_next (s n)\<rparr>) | None \<Rightarrow> s) n)
                     \<lparr>m_next := None\<rparr>), True)"
  by (subst erase_loop.simps) (simp add: Let_def)

lemma erase_loop_later_aux:
  assumes s': "s' = s(p := (s p)\<lparr>m_next := m_next (s n)\<rparr>, n := (s n)\<lparr>m_next := None\<rparr>)"
  shows "chain s cur (ys @ p # n # zs) \<Longrightarrow> erase_loop (Some n) s prev cur = Some (s', True)"
proof (induction ys arbitrary: prev cur)
  case Nil
  then have "distinct (p # n # zs)" using chain_distinct by fastforce
  then have pn: "p \<noteq> n" by simp
  from Nil have "cur = Some p" "m_next (s p) = Some n" by simp_all
  with pn have "erase_loop (Some n) s prev cur = erase_loop (Some n) s (Some p) (Some n)"
    by (subst erase_loop.simps) simp
  also have "\<dots> = Some (s', True)"
    unfolding s' erase_loop_here using pn by simp
  finally show ?case .
next
  case (Cons y ys)
  then have "distinct (y # ys @ p # n # zs)" using chain_distinct by fastforce
  then have "y \<noteq> n" by simp
  moreover from Cons.prems have "cur = Some y" "chain s (m_next (s y)) (ys @ p # n # zs)"
    by simp_all
  ultimately show ?case
    using Cons.IH [of "m_next (s y)" "Some y"] by (subst erase_loop.simps) simp
qed

lemma erase_loop_later:
  "chain s cur (ys @ p # n # zs) \<Longrightarrow>
   erase_loop (Some n) s prev cur =
     Some (s(p := (s p)\<lparr>m_next := m_next (s n)\<rparr>, n := (s n)\<lparr>m_next := None\<rparr>), True)"
  by (rule erase_loop_later_aux [OF refl])

lemma erase_absent:
  "chain s (m_head l) xs \<Longrightarrow> node \<notin> Some ` set xs \<Longrightarrow> erase node (s, l) = Some ((s, l), False)"
  by (simp add: erase_def erase_loop_absent)

lemma erase_at_head:
  "m_head l = Some n \<Longrightarrow>
   erase (Some n) (s, l) = Some ((s(n := (s n)\<lparr>m_next := None\<rparr>), l), True)"
  by (simp add: erase_def erase_loop_here)

lemma erase_after_head:
  "chain s (m_head l) (ys @ p # n # zs) \<Longrightarrow>
   erase (Some n) (s, l) =
     Some ((s(p := (s p)\<lparr>m_next := m_next (s n)\<rparr>, n := (s n)\<lparr>m_next := None\<rparr>), l), True)"
  by (simp add: erase_def erase_loop_later)

lemma split_at_member:
  assumes "n \<in> set xs"
  shows "(\<exists>zs. xs = n # zs) \<or> (\<exists>ys p zs. xs = ys @ p # n # zs)"
proof -
  from assms obtain us zs where xs: "xs = us @ n # zs"
    by (auto simp: in_set_conv_decomp)
  show ?thesis
  proof (cases us rule: rev_cases)
    case Nil
    with xs show ?thesis by simp
  next
    case (snoc ys p)
    with xs show ?thesis by auto
  qed
qed

lemma erase_on_chain:
  assumes "chain s (m_head l) xs"
  shows "\<exists>s' found xs'. erase node (s, l) = Some ((s', l), found) \<and> chain s' (m_head l) xs' \<and>
           set xs' \<subseteq> set xs \<and> length xs' \<le> length xs \<and> found = (node \<in> Some ` set xs)"
proof (cases "node \<in> Some ` set xs")
  case False
  with assms have "erase node (s, l) = Some ((s, l), False)" by (rule erase_absent)
  with assms False show ?thesis by auto
next
  case True
  then obtain n where n: "node = Some n" "n \<in> set xs" by auto
  from split_at_member [OF n(2)] show ?thesis
  proof (elim disjE exE)
    fix zs assume xs: "xs = n # zs"
    with assms have hd: "m_head l = Some n" by simp
    then have "erase node (s, l) = Some ((s(n := (s n)\<lparr>m_next := None\<rparr>), l), True)"
      unfolding n(1) by (rule erase_at_head)
    moreover have "chain (s(n := (s n)\<lparr>m_next := None\<rparr>)) (m_head l) [n]"
      using hd by simp
    ultimately show ?thesis using xs True
      by (intro exI [of _ "s(n := (s n)\<lparr>m_next := None\<rparr>)"] exI [of _ True] exI [of _ "[n]"]) simp
  next
    fix ys p zs assume xs: "xs = ys @ p # n # zs"
    let ?s' = "s(p := (s p)\<lparr>m_next := m_next (s n)\<rparr>, n := (s n)\<lparr>m_next := None\<rparr>)"
    from assms xs have c: "chain s (m_head l) (ys @ p # n # zs)" by simp
    then have "erase node (s, l) = Some ((?s', l), True)"
      unfolding n(1) by (rule erase_after_head)
    moreover from c have "chain ?s' (m_head l) (ys @ p # zs)" by (rule chain_unlink)
    ultimately show ?thesis using xs True
      by (intro exI [of _ ?s'] exI [of _ True] exI [of _ "ys @ p # zs"]) auto
  qed
qed

lemma erase_loop_result:
  assumes "erase_loop node s prev cur = Some r"
  shows "if snd r then \<exists>n. node = Some n \<and> m_next (fst r n) = None else fst r = s"
proof (rule erase_loop.raw_induct
    [where P = "\<lambda>node s prev cur r.
       if snd r then \<exists>n. node = Some n \<and> m_next (fst r n) = None else fst r = s",
     OF _ assms], goal_cases)
  case (1 scan node s prev cur r)
  show ?case
  proof (cases cur)
    case None
    with "1"(2) show ?thesis by auto
  next
    case (Some c)
    show ?thesis
    proof (cases "Some c = node")
      case True
      with Some "1"(2) show ?thesis by (auto simp: Let_def)
    next
      case False
      with Some "1"(2) have "scan node s (Some c) (m_next (s c)) = Some r" by simp
      then show ?thesis by (rule "1"(1))
    qed
  qed
qed

lemma erase_result:
  assumes "erase node st = Some ((s', l'), found)"
  shows "l' = snd st"
    and "found \<Longrightarrow> \<exists>n. node = Some n \<and> m_next (s' n) = None"
    and "\<not> found \<Longrightarrow> s' = fst st"
proof -
  obtain s l where st: "st = (s, l)" by (cases st)
  with assms have loop: "erase_loop node s None (m_head l) = Some (s', found)" and l: "l' = l"
    by (auto simp: erase_def split: option.splits)
  from l st show "l' = snd st" by simp
  from erase_loop_result [OF loop] show "found \<Longrightarrow> \<exists>n. node = Some n \<and> m_next (s' n) = None"
    by simp
  from erase_loop_result [OF loop] st show "\<not> found \<Longrightarrow> s' = fst st"
    by simp
qed

subsection \<open>Pushing and popping on a chain\<close>

lemma not_linked_null: "\<not> linked s None n"
  by (auto elim: linked.cases)

lemma linked_at_node: "linked s (Some a) n = (a = n \<or> linked s (m_next (s a)) n)"
  by (auto elim: linked.cases intro: linked.intros)

lemma push_front_chain:
  assumes "\<not> linked s (m_head l) node" and "chain s (m_head l) xs"
  shows "chain (fst (push_front node (s, l))) (m_head (snd (push_front node (s, l)))) (node # xs)"
proof -
  from assms have "node \<notin> set xs" by (simp add: linked_chain_iff)
  with assms(2) show ?thesis
    by (cases xs) (auto simp: push_front_def chain_store_upd)
qed

lemma pop_front_chain:
  assumes "chain s (m_head l) xs"
  shows "chain (fst (pop_front (s, l))) (m_head (snd (pop_front (s, l)))) (tl xs)"
  using assms by (cases xs) (auto simp: pop_front_def)

lemma apply_op_keeps_chain:
  assumes "chain (fst st) (m_head (snd st)) xs" and "push_is_fresh x st"
  shows "\<exists>st' xs'. apply_op x st = Some st' \<and> chain (fst st') (m_head (snd st')) xs' \<and>
           set xs' \<subseteq> set xs \<union> set (pushed [x]) \<and> length xs' \<le> length xs + length (pushed [x])"
proof (cases x)
  case (Push_front n)
  obtain s l where st: "st = (s, l)" by (cases st)
  with assms Push_front have "\<not> linked s (m_head l) n" "chain s (m_head l) xs"
    by simp_all
  then have "chain (fst (push_front n (s, l))) (m_head (snd (push_front n (s, l)))) (n # xs)"
    by (rule push_front_chain)
  with Push_front st show ?thesis
    by (intro exI [of _ "push_front n st"] exI [of _ "n # xs"]) auto
next
  case Pop_front
  obtain s l where st: "st = (s, l)" by (cases st)
  with assms have "chain s (m_head l) xs" by simp
  then have "chain (fst (pop_front (s, l))) (m_head (snd (pop_front (s, l)))) (tl xs)"
    by (rule pop_front_chain)
  moreover have "set (tl xs) \<subseteq> set xs" by (cases xs) auto
  ultimately show ?thesis using Pop_front st
    by (intro exI [of _ "pop_front st"] exI [of _ "tl xs"]) auto
next
  case (Erase node)
  obtain s l where st: "st = (s, l)" by (cases st)
  with assms have "chain s (m_head l) xs" by simp
  from erase_on_chain [OF this, of node] obtain s' found xs'
    where "erase node (s, l) = Some ((s', l), found)" "chain s' (m_head l) xs'"
      "set xs' \<subseteq> set xs" "length xs' \<le> length xs"
    by blast
  with Erase st show ?thesis
    by (intro exI [of _ "(s', l)"] exI [of _ xs']) auto
qed

lemma pushed_Cons: "set (pushed (x # ops)) = set (pushed [x]) \<union> set (pushed ops)"
  "length (pushed (x # ops)) = length (pushed [x]) + length (pushed ops)"
  by (cases x; simp)+

lemma run_keeps_chain:
  "chain (fst st) (m_head (snd st)) xs \<Longrightarrow> fresh_pushes ops st \<Longrightarrow>
   \<exists>st' xs'. run ops st = Some st' \<and> chain (fst st') (m_head (snd st')) xs' \<and>
      set xs' \<subseteq> set xs \<union> set (pushed ops) \<and> length xs' \<le> length xs + length (pushed ops)"
proof (induction ops arbitrary: st xs)
  case Nil
  then show ?case by auto
next
  case (Cons x ops)
  from Cons.prems have "push_is_fresh x st" by simp
  from apply_op_keeps_chain [OF Cons.prems(1) this] obtain st1 xs1
    where step: "apply_op x st = Some st1" "chain (fst st1) (m_head (snd st1)) xs1"
      "set xs1 \<subseteq> set xs \<union> set (pushed [x])" "length xs1 \<le> length xs + length (pushed [x])"
    by blast
  with Cons.prems have "fresh_pushes ops st1" by simp
  from Cons.IH [OF step(2) this] obtain st' xs'
    where rest: "run ops st1 = Some st'" "chain (fst st') (m_head (snd st')) xs'"
      "set xs' \<subseteq> set xs1 \<union> set (pushed ops)" "length xs' \<le> length xs1 + length (pushed ops)"
    by blast
  have "run (x # ops) st = Some st'" using step(1) rest(1) by simp
  moreover have "set xs' \<subseteq> set xs \<union> set (pushed (x # ops))"
    using step(3) rest(3) unfolding pushed_Cons(1) [of x ops] by blast
  moreover have "length xs' \<le> length xs + length (pushed (x # ops))"
    using step(4) rest(4) unfolding pushed_Cons(2) [of x ops] by linarith
  ultimately show ?case using rest(2) by blast
qed

section \<open>The claims about the list\<close>

text \<open>
  C1. erase(node) scans the list, unthreads node wherever it sits, the current head
  included, and returns true exactly when node was found. The code at the input
  push_front(2); push_front(1); erase(1): the list is 1, 2 before the call; erase
  returns true, and afterwards the head still refers to node 1, node 1 is still linked
  and node 2 is no longer reachable.
\<close>

theorem erase_head_keeps_node_linked:
  "chain (fst (push_front 1 (push_front 2 (default_nodes, Intrusive_slist_ctor))))
     (m_head (snd (push_front 1 (push_front 2 (default_nodes, Intrusive_slist_ctor))))) [1, 2] \<and>
   (case erase (Some 1) (push_front 1 (push_front 2 (default_nodes, Intrusive_slist_ctor))) of
      None \<Rightarrow> False
    | Some ((s', l'), found) \<Rightarrow>
        found \<and> m_head l' = Some 1 \<and> chain s' (m_head l') [1] \<and>
        linked s' (m_head l') 1 \<and> \<not> linked s' (m_head l') 2)"
proof -
  let ?st = "push_front 1 (push_front 2 (default_nodes, Intrusive_slist_ctor))"
  have st: "?st = (default_nodes(2 := \<lparr>m_next = None\<rparr>, 1 := \<lparr>m_next = Some 2\<rparr>), \<lparr>m_head = Some 1\<rparr>)"
    by (simp add: push_front_def Intrusive_slist_ctor_def default_nodes_def
        Intrusive_slist_node_ctor_def)
  let ?s' = "default_nodes(2 := \<lparr>m_next = None\<rparr>, 1 := \<lparr>m_next = None\<rparr>)"
  have er: "erase (Some 1) ?st = Some ((?s', \<lparr>m_head = Some 1\<rparr>), True)"
    unfolding st by (simp add: erase_at_head)
  have after: "chain ?s' (Some 1) [1]" by simp
  have "linked ?s' (Some 1) 1" "\<not> linked ?s' (Some 1) 2"
    using linked_chain_iff [OF after, of 1] linked_chain_iff [OF after, of 2] by simp_all
  with after er st show ?thesis by simp
qed

text \<open>
  C2, as stated, fails: after pop_front on the list 1, 2 node 1 is no longer linked and
  its next reference is still node 2, and move construction empties the source list
  while the next reference of node 1 stays node 2.
\<close>

theorem detached_next_counterexample:
  "\<not> linked (fst (pop_front (default_nodes(1 := \<lparr>m_next = Some 2\<rparr>), \<lparr>m_head = Some 1\<rparr>)))
       (m_head (snd (pop_front (default_nodes(1 := \<lparr>m_next = Some 2\<rparr>), \<lparr>m_head = Some 1\<rparr>)))) 1 \<and>
   m_next (fst (pop_front (default_nodes(1 := \<lparr>m_next = Some 2\<rparr>), \<lparr>m_head = Some 1\<rparr>)) 1) \<noteq> None \<and>
   empty (snd (snd (Intrusive_slist_move
       (default_nodes(1 := \<lparr>m_next = Some 2\<rparr>), \<lparr>m_head = Some 1\<rparr>)))) \<and>
   m_next (fst (Intrusive_slist_move
       (default_nodes(1 := \<lparr>m_next = Some 2\<rparr>), \<lparr>m_head = Some 1\<rparr>)) 1) \<noteq> None"
proof -
  let ?s = "default_nodes(1 := \<lparr>m_next = Some 2\<rparr>)"
  have c: "chain ?s (Some 2) [2]"
    by (simp add: default_nodes_def Intrusive_slist_node_ctor_def)
  have "\<not> linked ?s (Some 2) 1"
    using linked_chain_iff [OF c, of 1] by simp
  then show ?thesis
    by (simp add: pop_front_def Intrusive_slist_move_def empty_def)
qed

text \<open>
  C2, amended. A node that erase finds has a null next reference when erase returns:
  on any store whenever the call returns true, and the call does return true for every
  member of a well-formed list. Move construction leaves the store of nodes, and so
  every next reference, as it was.
\<close>

theorem erase_nulls_next_of_found_node:
  "(erase (Some n) (s, l) = Some ((s', l'), True) \<longrightarrow> m_next (s' n) = None) \<and>
   (chain s (m_head l) xs \<and> n \<in> set xs \<longrightarrow>
      (\<exists>s''. erase (Some n) (s, l) = Some ((s'', l), True) \<and> m_next (s'' n) = None)) \<and>
   fst (Intrusive_slist_move (s, l)) = s"
proof (intro conjI impI)
  assume "erase (Some n) (s, l) = Some ((s', l'), True)"
  from erase_result(2) [OF this] show "m_next (s' n) = None" by simp
next
  assume "chain s (m_head l) xs \<and> n \<in> set xs"
  then have c: "chain s (m_head l) xs" and n: "n \<in> set xs" by simp_all
  from erase_on_chain [OF c, of "Some n"] n obtain s''
    where e: "erase (Some n) (s, l) = Some ((s'', l), True)"
    by auto
  from erase_result(2) [OF e] have "m_next (s'' n) = None" by simp
  with e show "\<exists>s''. erase (Some n) (s, l) = Some ((s'', l), True) \<and> m_next (s'' n) = None"
    by blast
next
  show "fst (Intrusive_slist_move (s, l)) = s"
    by (simp add: Intrusive_slist_move_def)
qed

theorem erase_nulls_next_of_found_node_witness:
  "chain (default_nodes(1 := \<lparr>m_next = Some 2\<rparr>)) (Some 1) [1, 2] \<and>
   erase (Some 2) (default_nodes(1 := \<lparr>m_next = Some 2\<rparr>), \<lparr>m_head = Some 1\<rparr>) =
     Some ((default_nodes(1 := \<lparr>m_next = None\<rparr>, 2 := \<lparr>m_next = None\<rparr>), \<lparr>m_head = Some 1\<rparr>), True) \<and>
   m_next ((default_nodes(1 := \<lparr>m_next = None\<rparr>, 2 := \<lparr>m_next = None\<rparr>)) 2) = None"
proof -
  let ?s = "default_nodes(1 := \<lparr>m_next = Some 2\<rparr>)"
  let ?s' = "default_nodes(1 := \<lparr>m_next = None\<rparr>, 2 := \<lparr>m_next = None\<rparr>)"
  have c: "chain ?s (Some 1) [1, 2]"
    by (simp add: default_nodes_def Intrusive_slist_node_ctor_def)
  have e: "erase (Some 2) (?s, \<lparr>m_head = Some 1\<rparr>) = Some ((?s', \<lparr>m_head = Some 1\<rparr>), True)"
    using erase_after_head [of ?s "\<lparr>m_head = Some 1\<rparr>" "[]" 1 2 "[]"] c
    by (simp add: default_nodes_def Intrusive_slist_node_ctor_def)
  from erase_nulls_next_of_found_node [of 2 ?s "\<lparr>m_head = Some 1\<rparr>" ?s' "\<lparr>m_head = Some 1\<rparr>" "[1, 2]"] e
  have "m_next (?s' 2) = None" by blast
  with c e show ?thesis by blast
qed

text \<open>
  C3. pop_front() moves the head to the next reference of the current head when the
  list is not empty and leaves the list as it is when it is empty. It returns nothing:
  its result is the state alone, and the store of nodes is the one it was given.
\<close>

theorem pop_front_advances_head:
  "(m_head l = Some h \<longrightarrow> pop_front (s, l) = (s, l\<lparr>m_head := m_next (s h)\<rparr>)) \<and>
   (empty l \<longrightarrow> pop_front (s, l) = (s, l))"
  by (simp add: pop_front_def empty_def)

theorem pop_front_advances_head_witness:
  "pop_front (default_nodes(1 := \<lparr>m_next = Some 2\<rparr>), \<lparr>m_head = Some 1\<rparr>) =
     (default_nodes(1 := \<lparr>m_next = Some 2\<rparr>), \<lparr>m_head = Some 2\<rparr>) \<and>
   empty Intrusive_slist_ctor \<and>
   pop_front (default_nodes, Intrusive_slist_ctor) = (default_nodes, Intrusive_slist_ctor)"
  using pop_front_advances_head [of "\<lparr>m_head = Some 1\<rparr>" 1 "default_nodes(1 := \<lparr>m_next = Some 2\<rparr>)"]
    pop_front_advances_head [of Intrusive_slist_ctor 0 default_nodes]
  by (simp add: empty_def Intrusive_slist_ctor_def)

text \<open>
  C4. push_front(node) makes node the head and sets the next reference of node to the
  previous head, null when the list was empty; afterwards front() is node and
  empty() is false. For a node that is not linked in the list, the list afterwards is
  node followed by the previous nodes.
\<close>

theorem push_front_links_head:
  assumes "push_front node (s, l) = (s', l')"
  shows "m_head l' = Some node \<and> m_next (s' node) = m_head l \<and>
         front adj l' = Some (adj node) \<and> \<not> empty l' \<and>
         (\<not> linked s (m_head l) node \<and> chain s (m_head l) xs \<longrightarrow>
            chain s' (m_head l') (node # xs))"
proof -
  from assms have hd: "m_head l' = Some node" and nx: "m_next (s' node) = m_head l"
    by (auto simp: push_front_def)
  from hd have "front adj l' = Some (adj node)" "\<not> empty l'"
    by (simp_all add: front_def static_cast_def empty_def)
  moreover have "chain s' (m_head l') (node # xs)"
    if "\<not> linked s (m_head l) node \<and> chain s (m_head l) xs"
    using push_front_chain [of s l node xs] that assms by simp
  ultimately show ?thesis using hd nx by blast
qed

theorem push_front_links_head_witness:
  "\<not> linked default_nodes (Some 2) 1 \<and> chain default_nodes (Some 2) [2] \<and>
   push_front 1 (default_nodes, \<lparr>m_head = Some 2\<rparr>) =
     (default_nodes(1 := \<lparr>m_next = Some 2\<rparr>), \<lparr>m_head = Some 1\<rparr>) \<and>
   front Suc \<lparr>m_head = Some 1\<rparr> = Some 2 \<and> \<not> empty \<lparr>m_head = Some 1\<rparr> \<and>
   chain (default_nodes(1 := \<lparr>m_next = Some 2\<rparr>)) (Some 1) [1, 2]"
proof -
  have c: "chain default_nodes (Some 2) [2]"
    by (simp add: default_nodes_def Intrusive_slist_node_ctor_def)
  have nl: "\<not> linked default_nodes (Some 2) 1"
    using linked_chain_iff [OF c, of 1] by simp
  have p: "push_front 1 (default_nodes, \<lparr>m_head = Some 2\<rparr>) =
      (default_nodes(1 := \<lparr>m_next = Some 2\<rparr>), \<lparr>m_head = Some 1\<rparr>)"
    by (simp add: push_front_def default_nodes_def Intrusive_slist_node_ctor_def)
  from push_front_links_head [OF p, of Suc "[2]"] c nl show ?thesis
    using p by simp
qed

text \<open>
  C5. From the empty list, after any sequence of push_front (each time of a node that is
  not linked in the list), pop_front and erase, every call has returned and the nodes
  reached from the head form a finite chain that ends in null and repeats no node; all
  of them were pushed, and there are at most as many as push_front was called.
\<close>

theorem chain_stays_acyclic_and_bounded:
  assumes "fresh_pushes ops (s0, Intrusive_slist_ctor)"
  shows "\<exists>s l xs. run ops (s0, Intrusive_slist_ctor) = Some (s, l) \<and>
           chain s (m_head l) xs \<and> distinct xs \<and>
           set xs \<subseteq> set (pushed ops) \<and> length xs \<le> length (pushed ops)"
proof -
  have "chain (fst (s0, Intrusive_slist_ctor)) (m_head (snd (s0, Intrusive_slist_ctor))) []"
    by (simp add: Intrusive_slist_ctor_def)
  from run_keeps_chain [OF this assms] obtain st' xs
    where r: "run ops (s0, Intrusive_slist_ctor) = Some st'"
      and c: "chain (fst st') (m_head (snd st')) xs"
      and b: "set xs \<subseteq> set (pushed ops)" "length xs \<le> length (pushed ops)"
    by auto
  from c have "distinct xs" by (rule chain_distinct)
  with r c b show ?thesis
    by (intro exI [of _ "fst st'"] exI [of _ "snd st'"] exI [of _ xs]) simp
qed

theorem chain_stays_acyclic_and_bounded_witness:
  "fresh_pushes [Push_front 2, Push_front 3, Erase (Some 2), Pop_front, Push_front 2]
     (default_nodes, Intrusive_slist_ctor) \<and>
   (\<exists>s l xs. run [Push_front 2, Push_front 3, Erase (Some 2), Pop_front, Push_front 2]
        (default_nodes, Intrusive_slist_ctor) = Some (s, l) \<and>
      chain s (m_head l) xs \<and> distinct xs \<and> length xs \<le> 3)"
proof -
  let ?ops = "[Push_front 2, Push_front 3, Erase (Some 2), Pop_front, Push_front 2]"
  have fp: "fresh_pushes ?ops (default_nodes, Intrusive_slist_ctor)"
    by (simp add: push_front_def pop_front_def erase_def erase_loop.simps
        linked_at_node not_linked_null
        default_nodes_def Intrusive_slist_ctor_def Intrusive_slist_node_ctor_def)
  from chain_stays_acyclic_and_bounded [OF fp] obtain s l xs
    where r: "run ?ops (default_nodes, Intrusive_slist_ctor) = Some (s, l)"
      "chain s (m_head l) xs" "distinct xs"
      and len: "length xs \<le> length (pushed ?ops)"
    by blast
  from len have "length xs \<le> 3" by simp
  with r fp show ?thesis by blast
qed

text \<open>
  C6. Move construction gives the new list the head of the source list and leaves the
  source list empty, its head null; the store of nodes, and so every next reference, is
  the one it was.
\<close>

theorem move_transfers_head:
  "Intrusive_slist_move (s, rhs) = (s, \<lparr>m_head = m_head rhs\<rparr>, \<lparr>m_head = None\<rparr>) \<and>
   empty (snd (snd (Intrusive_slist_move (s, rhs))))"
  by (simp add: Intrusive_slist_move_def empty_def)

text \<open>
  C8. On an empty list front<T>() returns the null pointer, whatever the derived type T
  (whatever the adjustment from the node to the T object that holds it).
\<close>

theorem front_of_empty_is_null:
  "empty l \<Longrightarrow> front adj l = None"
  by (simp add: empty_def front_def static_cast_def)

theorem front_of_empty_is_null_witness:
  "empty Intrusive_slist_ctor \<and> front Suc Intrusive_slist_ctor = None"
proof -
  have e: "empty Intrusive_slist_ctor"
    by (simp add: empty_def Intrusive_slist_ctor_def)
  from front_of_empty_is_null [OF e, of Suc] e show ?thesis by simp
qed

text \<open>
  C9. push_front(n) followed by pop_front() gives back the head the list had, and with it
  the same answer of empty(). When n was not linked in the list, the nodes of the list
  are the same as before too.
\<close>

theorem push_then_pop_restores_head:
  assumes "pop_front (push_front n (s, l)) = (s', l')"
  shows "m_head l' = m_head l \<and> empty l' = empty l \<and>
         (\<not> linked s (m_head l) n \<and> chain s (m_head l) xs \<longrightarrow> chain s' (m_head l') xs)"
proof -
  from assms have hd: "m_head l' = m_head l" and s': "s' = fst (push_front n (s, l))"
    by (auto simp: pop_front_def push_front_def)
  have "chain s' (m_head l') xs" if "\<not> linked s (m_head l) n \<and> chain s (m_head l) xs"
  proof -
    from that have "chain (fst (push_front n (s, l))) (m_head (snd (push_front n (s, l)))) (n # xs)"
      using push_front_chain [of s l n xs] by blast
    then have "chain s' (m_next (s' n)) xs" using s' by simp
    moreover have "m_next (s' n) = m_head l" unfolding s' by (simp add: push_front_def)
    ultimately show ?thesis using hd by simp
  qed
  with hd show ?thesis by (simp add: empty_def)
qed

theorem push_then_pop_restores_head_witness:
  "\<not> linked default_nodes (Some 2) 1 \<and> chain default_nodes (Some 2) [2] \<and>
   pop_front (push_front 1 (default_nodes, \<lparr>m_head = Some 2\<rparr>)) =
     (default_nodes(1 := \<lparr>m_next = Some 2\<rparr>), \<lparr>m_head = Some 2\<rparr>) \<and>
   \<not> empty \<lparr>m_head = Some 2\<rparr> \<and>
   chain (default_nodes(1 := \<lparr>m_next = Some 2\<rparr>)) (Some 2) [2]"
proof -
  have c: "chain default_nodes (Some 2) [2]"
    by (simp add: default_nodes_def Intrusive_slist_node_ctor_def)
  have nl: "\<not> linked default_nodes (Some 2) 1"
    using linked_chain_iff [OF c, of 1] by simp
  have p: "pop_front (push_front 1 (default_nodes, \<lparr>m_head = Some 2\<rparr>)) =
      (default_nodes(1 := \<lparr>m_next = Some 2\<rparr>), \<lparr>m_head = Some 2\<rparr>)"
    by (simp add: pop_front_def push_front_def default_nodes_def Intrusive_slist_node_ctor_def)
  from push_then_pop_restores_head [OF p, of "[2]"] c nl show ?thesis
    using p by (simp add: empty_def)
qed

section \<open>The claims about the logger\<close>

text \<open>
  C7. A Logger has one object pool and one value queue, both of capacity NUM_RECORDS,
  so the two capacities are equal, and a sink reference that can be null: this holds
  when the Logger is constructed and after any number of calls of set_sink.
\<close>

theorem logger_pool_and_queue_capacity:
  "pool_capacity (m_log_pool (fold set_sink sinks (Logger_ctor NUM_RECORDS))) = NUM_RECORDS \<and>
   queue_capacity (m_log_buffer (fold set_sink sinks (Logger_ctor NUM_RECORDS))) = NUM_RECORDS \<and>
   pool_capacity (m_log_pool (fold set_sink sinks (Logger_ctor NUM_RECORDS))) =
     queue_capacity (m_log_buffer (fold set_sink sinks (Logger_ctor NUM_RECORDS))) \<and>
   m_sink (fold set_sink [None] (Logger_ctor NUM_RECORDS)) = None"
proof -
  have "m_log_pool (fold set_sink sinks lg) = m_log_pool lg \<and>
        m_log_buffer (fold set_sink sinks lg) = m_log_buffer lg" for lg
    by (induction sinks arbitrary: lg) (simp_all add: set_sink_def)
  then show ?thesis
    by (simp add: Logger_ctor_def Object_pool_ctor_def Queue_static_pod_ctor_def set_sink_def)
qed

text \<open>
  C10. A Logger that was just constructed has a null sink reference, and set_sink stores
  its argument as the sink reference whatever the reference was before, leaving the pool
  and the queue as they were.
\<close>

theorem logger_sink_null_until_set:
  "m_sink (Logger_ctor NUM_RECORDS) = None \<and>
   m_sink (set_sink sink lg) = sink \<and>
   m_log_pool (set_sink sink lg) = m_log_pool lg \<and>
   m_log_buffer (set_sink sink lg) = m_log_buffer lg"
  by (simp add: Logger_ctor_def set_sink_def)


end
